theory Spec2Isabelle
  imports Main
begin

section \<open>Python values used by \<^verbatim>\<open>ocr_utils.py\<close>\<close>

text \<open>
  A Python \<^verbatim>\<open>str\<close> is a sequence of Unicode code points and \<^verbatim>\<open>len\<close> counts code
  points, so a string is a list of code points (natural numbers). A literal of the source
  is written \<open>lit ''...''\<close>. \<^verbatim>\<open>bytes\<close> is a list of byte values.
\<close>

type_synonym codepoint = nat
type_synonym pystr = "codepoint list"
type_synonym bytes = "nat list"

definition lit :: "string \<Rightarrow> pystr" where
  "lit s = map of_char s"

abbreviation NL :: codepoint where
  "NL \<equiv> 10"

abbreviation SP :: codepoint where
  "SP \<equiv> 32"

abbreviation EQS :: codepoint where
  "EQS \<equiv> 61"

text \<open>
  The characters that \<^verbatim>\<open>str.split()\<close> and \<^verbatim>\<open>str.strip()\<close> (both without argument)
  treat as whitespace, as in CPython: U+0009..U+000D, U+001C..U+0020, U+0085, U+00A0,
  U+1680, U+2000..U+200A, U+2028, U+2029, U+202F, U+205F, U+3000.
\<close>

definition is_space :: "codepoint \<Rightarrow> bool" where
  "is_space c \<longleftrightarrow>
     (9 \<le> c \<and> c \<le> 13) \<or> (28 \<le> c \<and> c \<le> 32) \<or> c = 133 \<or> c = 160 \<or> c = 5760 \<or>
     (8192 \<le> c \<and> c \<le> 8202) \<or> c = 8232 \<or> c = 8233 \<or> c = 8239 \<or> c = 8287 \<or> c = 12288"

text \<open>
  \<open>split_where P s\<close> cuts \<open>s\<close> at every element satisfying \<open>P\<close> and keeps the empty
  pieces. \<^verbatim>\<open>s.split('\n')\<close> is \<open>split_sep NL s\<close>; \<^verbatim>\<open>s.split()\<close> cuts at every whitespace
  character and drops the empty pieces.
\<close>

fun split_where :: "('a \<Rightarrow> bool) \<Rightarrow> 'a list \<Rightarrow> 'a list list" where
  "split_where P [] = [[]]"
| "split_where P (c # cs) =
     (if P c then [] # split_where P cs
      else (case split_where P cs of [] \<Rightarrow> [[c]] | r # rs \<Rightarrow> (c # r) # rs))"

definition split_sep :: "codepoint \<Rightarrow> pystr \<Rightarrow> pystr list" where
  "split_sep d s = split_where (\<lambda>c. c = d) s"

definition split_ws :: "pystr \<Rightarrow> pystr list" where
  "split_ws s = filter (\<lambda>w. w \<noteq> []) (split_where is_space s)"

definition strip :: "pystr \<Rightarrow> pystr" where
  "strip s = rev (dropWhile is_space (rev (dropWhile is_space s)))"

fun join :: "pystr \<Rightarrow> pystr list \<Rightarrow> pystr" where
  "join sep [] = []"
| "join sep [x] = x"
| "join sep (x # y # ys) = x @ sep @ join sep (y # ys)"

text \<open>\<^verbatim>\<open>str(n)\<close> of an integer, as an f-string formats it: decimal digits, a minus sign
  for a negative number.\<close>

fun str_nat :: "nat \<Rightarrow> pystr" where
  "str_nat n = (if n < 10 then [48 + n] else str_nat (n div 10) @ [48 + n mod 10])"

definition str_int :: "int \<Rightarrow> pystr" where
  "str_int i = (if i < 0 then 45 # str_nat (nat (- i)) else str_nat (nat i))"

section \<open>Text utilities\<close>

subsection \<open>\<^verbatim>\<open>split_message\<close>\<close>

text \<open>
  The inner loop over the words of an over-long line. The state is the pair of the
  list \<^verbatim>\<open>messages\<close> and the string \<^verbatim>\<open>temp\<close>.
\<close>

fun pack_words :: "int \<Rightarrow> pystr list \<Rightarrow> pystr list \<times> pystr \<Rightarrow> pystr list \<times> pystr" where
  "pack_words max_length [] (messages, temp) = (messages, temp)"
| "pack_words max_length (word # words) (messages, temp) =
     (if int (length temp) + int (length word) + 1 \<le> max_length
      then pack_words max_length words (messages, temp @ word @ [SP])
      else pack_words max_length words (messages @ [strip temp], word @ [SP]))"

text \<open>
  The outer loop over the lines. The state is the pair of \<^verbatim>\<open>messages\<close> and
  \<^verbatim>\<open>current_message\<close>.
\<close>

fun pack_lines :: "int \<Rightarrow> pystr list \<Rightarrow> pystr list \<times> pystr \<Rightarrow> pystr list \<times> pystr" where
  "pack_lines max_length [] (messages, current_message) = (messages, current_message)"
| "pack_lines max_length (line # lines) (messages, current_message) =
     (if int (length current_message) + int (length line) + 1 \<le> max_length
      then pack_lines max_length lines (messages, current_message @ line @ [NL])
      else
        (let messages1 =
               (if current_message \<noteq> [] then messages @ [strip current_message]
                else messages)
         in if int (length line) > max_length
            then pack_lines max_length lines (pack_words max_length (split_ws line) (messages1, []))
            else pack_lines max_length lines (messages1, line @ [NL])))"

definition split_message :: "pystr \<Rightarrow> int \<Rightarrow> pystr list" where
  "split_message text max_length =
     (case pack_lines max_length (split_sep NL text) ([], []) of
        (messages, current_message) \<Rightarrow>
          (let messages1 =
                 (if current_message \<noteq> [] then messages @ [strip current_message]
                  else messages)
           in if messages1 \<noteq> [] then messages1 else [[]]))"

subsection \<open>\<^verbatim>\<open>get_text_statistics\<close>\<close>

text \<open>
  The dictionary with the keys \<^verbatim>\<open>'lines'\<close>, \<^verbatim>\<open>'words'\<close> and \<^verbatim>\<open>'characters'\<close>. The
  function returns \<^verbatim>\<open>None\<close> from its handler; on a \<^verbatim>\<open>str\<close> none of the three
  expressions raises, so that on strings the result is always a dictionary.
\<close>

record text_statistics =
  lines :: nat
  words :: nat
  characters :: nat

definition get_text_statistics :: "pystr \<Rightarrow> text_statistics option" where
  "get_text_statistics text =
     Some \<lparr>lines = length (split_sep NL text),
           words = length (split_ws text),
           characters = length text\<rparr>"

section \<open>The environment: files, the network, the imaging and OCR libraries\<close>

text \<open>
  The module calls PIL, pytesseract, pdf2image and requests. Their results are not
  computed here: every call is a field of the environment, and a call that can raise
  returns either the exception (\<open>Inl\<close>) or its value (\<open>Inr\<close>). Only two kinds of
  exception are told apart by the handlers of the module: \<^verbatim>\<open>requests.exceptions.Timeout\<close>
  and everything else; both carry the text that \<^verbatim>\<open>str(e)\<close> gives.
\<close>

datatype pyexn = Timeout pystr | OtherException pystr

fun exn_str :: "pyexn \<Rightarrow> pystr" where
  "exn_str (Timeout m) = m"
| "exn_str (OtherException m) = m"

text \<open>A decoded PIL image: the attributes the module reads, and its pixel content
  left abstract. A variable that the source calls \<^verbatim>\<open>image\<close> is written \<open>img\<close> below.\<close>

record image =
  img_mode :: pystr
  img_size :: "int \<times> int"
  img_format :: "pystr option"
  img_pixels :: nat

text \<open>The argument of the remote extractor and of the validator: a path, raw bytes,
  or a value of any other type.\<close>

datatype image_data = Path pystr | Bytes bytes | OtherValue

text \<open>The argument of the local extractor: raw bytes or a decoded image.\<close>

datatype image_arg = RawBytes bytes | Decoded image

text \<open>The argument of the PDF extractor: raw bytes, or a stream whose \<^verbatim>\<open>read()\<close>
  gives bytes or raises.\<close>

datatype pdf_file = PdfBytes bytes | PdfStream "pyexn + bytes"

text \<open>
  The JSON object of the OCR service, with the keys the module reads:
  \<^verbatim>\<open>IsErroredOnProcessing\<close> (its truth value), \<^verbatim>\<open>ErrorMessage\<close> (a list of strings,
  \<open>None\<close> when the key is absent) and \<^verbatim>\<open>ParsedResults\<close> (the \<^verbatim>\<open>ParsedText\<close> of each
  result, \<open>None\<close> when that key is absent; the empty list when \<^verbatim>\<open>ParsedResults\<close> is
  absent).
\<close>

record ocr_json =
  IsErroredOnProcessing :: bool
  ErrorMessage :: "pystr list option"
  ParsedResults :: "pystr option list"

record response =
  ok :: bool
  status_code :: int
  json :: "pyexn + ocr_json"

record env =
  read_file :: "pystr \<Rightarrow> pyexn + bytes"
  http_post :: "bytes \<Rightarrow> pyexn + response"
  image_open :: "image_data \<Rightarrow> pyexn + image"
  convert_rgb :: "image \<Rightarrow> pyexn + image"
  image_to_string :: "image \<Rightarrow> pyexn + pystr"
  convert_from_bytes :: "bytes \<Rightarrow> pyexn + image list"
  sharpness :: "image \<Rightarrow> pyexn + image"
  contrast :: "image \<Rightarrow> pyexn + image"
  grayscale :: "image \<Rightarrow> pyexn + image"

text \<open>What a call does besides returning: a record written with \<^verbatim>\<open>logger.error\<close>, or
  one POST request to the OCR service carrying the given file bytes. Every function
  below returns its value together with the list of its effects, in order.\<close>

datatype effect = LogError pystr | HttpPost bytes

section \<open>Image OCR\<close>

subsection \<open>\<^verbatim>\<open>extract_text_from_image_ocr_api\<close>\<close>

text \<open>The two handlers of the function, applied to a raised exception after the
  effects \<open>effs\<close>.\<close>

fun ocr_api_except :: "pyexn \<Rightarrow> effect list \<Rightarrow> pystr \<times> effect list" where
  "ocr_api_except (Timeout m) effs = (lit ''ERROR: OCR API request timed out'', effs)"
| "ocr_api_except (OtherException m) effs =
     (lit ''ERROR: '' @ m, effs @ [LogError (lit ''OCR API error: '' @ m)])"

text \<open>The code after \<^verbatim>\<open>requests.post\<close> has returned a response.\<close>

definition ocr_api_response :: "response \<Rightarrow> pyexn + pystr" where
  "ocr_api_response r =
     (if ok r then
        (case json r of
           Inl e \<Rightarrow> Inl e
         | Inr result \<Rightarrow>
             if IsErroredOnProcessing result then
               (case ErrorMessage result of
                  None \<Rightarrow> Inr (lit ''ERROR: OCR processing failed: '' @ lit ''Unknown error'')
                | Some [] \<Rightarrow> Inl (OtherException (lit ''list index out of range''))
                | Some (error_msg # _) \<Rightarrow> Inr (lit ''ERROR: OCR processing failed: '' @ error_msg))
             else
               (case ParsedResults result of
                  [] \<Rightarrow> Inr (lit ''WARNING: No text detected in image'')
                | parsed # _ \<Rightarrow>
                    (let extracted_text = strip (case parsed of None \<Rightarrow> [] | Some t \<Rightarrow> t)
                     in if extracted_text = []
                        then Inr (lit ''WARNING: No text detected in image'')
                        else Inr extracted_text)))
      else Inr (lit ''ERROR: Server connection failed ('' @ str_int (status_code r) @ lit '')''))"

text \<open>The upload of the image bytes and the reading of the answer.\<close>

definition ocr_api_upload :: "env \<Rightarrow> bytes \<Rightarrow> pystr \<times> effect list" where
  "ocr_api_upload env image_bytes =
     (case http_post env image_bytes of
        Inl e \<Rightarrow> ocr_api_except e [HttpPost image_bytes]
      | Inr r \<Rightarrow>
          (case ocr_api_response r of
             Inl e \<Rightarrow> ocr_api_except e [HttpPost image_bytes]
           | Inr text \<Rightarrow> (text, [HttpPost image_bytes])))"

fun extract_text_from_image_ocr_api :: "env \<Rightarrow> image_data \<Rightarrow> pystr \<times> effect list" where
  "extract_text_from_image_ocr_api env (Path p) =
     (case read_file env p of
        Inl e \<Rightarrow> ocr_api_except e []
      | Inr image_bytes \<Rightarrow> ocr_api_upload env image_bytes)"
| "extract_text_from_image_ocr_api env (Bytes image_bytes) = ocr_api_upload env image_bytes"
| "extract_text_from_image_ocr_api env OtherValue = (lit ''ERROR: Invalid image data type'', [])"

subsection \<open>\<^verbatim>\<open>extract_text_from_image_tesseract\<close>\<close>

text \<open>The body of the \<^verbatim>\<open>try\<close> up to the trimmed text: decode raw bytes, convert to RGB,
  run the OCR engine, strip.\<close>

definition tesseract_text :: "env \<Rightarrow> image_arg \<Rightarrow> pyexn + pystr" where
  "tesseract_text env img =
     (case (case img of RawBytes b \<Rightarrow> image_open env (Bytes b) | Decoded im \<Rightarrow> Inr im) of
        Inl e \<Rightarrow> Inl e
      | Inr im \<Rightarrow>
          (case convert_rgb env im of
             Inl e \<Rightarrow> Inl e
           | Inr rgb \<Rightarrow>
               (case image_to_string env rgb of
                  Inl e \<Rightarrow> Inl e
                | Inr raw \<Rightarrow> Inr (strip raw))))"

definition extract_text_from_image_tesseract ::
    "env \<Rightarrow> image_arg \<Rightarrow> int option \<Rightarrow> pystr \<times> effect list" where
  "extract_text_from_image_tesseract env img page_number =
     (case tesseract_text env img of
        Inl e \<Rightarrow>
          (lit ''ERROR: Image processing failed: '' @ exn_str e,
           [LogError (lit ''Tesseract OCR error: '' @ exn_str e)])
      | Inr text \<Rightarrow>
          (case page_number of
             Some n \<Rightarrow>
               (let header = replicate 50 EQS @ [NL] @ lit ''Page '' @ str_int n @ [NL] @
                             replicate 50 EQS @ [NL, NL]
                in (header @ text, []))
           | None \<Rightarrow> (text, [])))"

section \<open>PDF OCR\<close>

text \<open>The loop over the pages; \<open>i\<close> is the number of the next page. The state is the
  list \<^verbatim>\<open>all_text\<close> with the effects so far.\<close>

fun pdf_pages ::
    "env \<Rightarrow> int \<Rightarrow> int \<Rightarrow> image list \<Rightarrow> pystr list \<times> effect list \<Rightarrow> pystr list \<times> effect list" where
  "pdf_pages env total_pages i [] (all_text, effs) = (all_text, effs)"
| "pdf_pages env total_pages i (img # images) (all_text, effs) =
     (case extract_text_from_image_tesseract env (Decoded img) (Some i) of
        (page_text, page_effs) \<Rightarrow>
          pdf_pages env total_pages (i + 1) images
            (if i < total_pages
             then all_text @ [page_text] @ [[NL, NL] @ replicate 50 EQS @ [NL, NL]]
             else all_text @ [page_text],
             effs @ page_effs))"

text \<open>The first statement of the \<^verbatim>\<open>try\<close>: the page images of the document, or the
  exception raised by \<^verbatim>\<open>read()\<close> or by the rasterizer.\<close>

definition pdf_images :: "env \<Rightarrow> pdf_file \<Rightarrow> pyexn + image list" where
  "pdf_images env pdf =
     (case pdf of
        PdfBytes b \<Rightarrow> convert_from_bytes env b
      | PdfStream r \<Rightarrow> (case r of Inl e \<Rightarrow> Inl e | Inr b \<Rightarrow> convert_from_bytes env b))"

definition extract_text_from_pdf :: "env \<Rightarrow> pdf_file \<Rightarrow> pystr \<times> effect list" where
  "extract_text_from_pdf env pdf =
     (case pdf_images env pdf of
        Inl e \<Rightarrow>
          (lit ''ERROR: PDF processing failed: '' @ exn_str e,
           [LogError (lit ''PDF OCR error: '' @ exn_str e)])
      | Inr images \<Rightarrow>
          (let total_pages = int (length images) in
           case pdf_pages env total_pages 1 images ([], []) of
             (all_text, effs) \<Rightarrow>
               (lit ''Total Pages: '' @ str_int total_pages @ [NL] @ replicate 50 EQS @ [NL, NL] @
                join [NL] all_text, effs)))"

section \<open>Image validation and enhancement\<close>

text \<open>\<^verbatim>\<open>MAX_IMAGE_SIZE\<close> comes from the configuration module, which is not part of the
  sources: it is a parameter, a pair of integers.\<close>

definition validate_image :: "env \<Rightarrow> int \<times> int \<Rightarrow> image_data \<Rightarrow> bool \<times> pystr" where
  "validate_image env MAX_IMAGE_SIZE image_data =
     (case image_open env image_data of
        Inl e \<Rightarrow> (False, exn_str e)
      | Inr img \<Rightarrow>
          if fst (img_size img) > fst MAX_IMAGE_SIZE \<or> snd (img_size img) > snd MAX_IMAGE_SIZE
          then (False, lit ''Image size exceeds allowed limits'')
          else if img_format img \<notin> set (map Some [lit ''JPEG'', lit ''PNG'', lit ''BMP'', lit ''TIFF''])
          then (False, lit ''Unsupported image format'')
          else (True, lit ''OK''))"

text \<open>
  The handler returns the variable \<^verbatim>\<open>image\<close>, which every completed step of the
  \<^verbatim>\<open>try\<close> has bound anew. The \<^verbatim>\<open>import\<close> inside the \<^verbatim>\<open>try\<close> is taken to succeed: the
  module has imported PIL before.
\<close>

definition enhance_except :: "image \<Rightarrow> pyexn \<Rightarrow> image \<times> effect list" where
  "enhance_except img e = (img, [LogError (lit ''Image enhancement error: '' @ exn_str e)])"

definition enhance_image_for_ocr :: "env \<Rightarrow> image \<Rightarrow> image \<times> effect list" where
  "enhance_image_for_ocr env img =
     (case (if img_mode img \<noteq> lit ''RGB'' then convert_rgb env img else Inr img) of
        Inl e \<Rightarrow> enhance_except img e
      | Inr image1 \<Rightarrow>
          (case sharpness env image1 of
             Inl e \<Rightarrow> enhance_except image1 e
           | Inr image2 \<Rightarrow>
               (case contrast env image2 of
                  Inl e \<Rightarrow> enhance_except image2 e
                | Inr image3 \<Rightarrow>
                    (case grayscale env image3 of
                       Inl e \<Rightarrow> enhance_except image3 e
                     | Inr image4 \<Rightarrow> (image4, [])))))"

section \<open>An example environment\<close>

text \<open>
  One concrete environment, for evaluating the functions: a document of two pages whose
  second page makes the OCR engine raise, an image decoder that gives a 5000 x 600
  image for the bytes \<open>[1]\<close> and an 800 x 600 image for other bytes, and a sharpness
  filter that raises.
\<close>

definition example_page :: "nat \<Rightarrow> image" where
  "example_page k =
     \<lparr>img_mode = lit ''L'', img_size = (800, 600), img_format = Some (lit ''PNG''),
      img_pixels = k\<rparr>"

definition example_env :: env where
  "example_env =
     \<lparr>read_file = (\<lambda>p. Inl (OtherException (lit ''No such file''))),
      http_post = (\<lambda>b. Inl (Timeout (lit ''timed out''))),
      image_open =
        (\<lambda>d. case d of
                Bytes b \<Rightarrow>
                  (if b = [1] then Inr ((example_page 1)\<lparr>img_size := (5000, 600)\<rparr>)
                   else Inr (example_page 1))
              | _ \<Rightarrow> Inl (OtherException (lit ''cannot identify image file''))),
      convert_rgb = (\<lambda>im. Inr (im\<lparr>img_mode := lit ''RGB''\<rparr>)),
      image_to_string =
        (\<lambda>im. if img_pixels im = 2 then Inl (OtherException (lit ''boom''))
               else Inr (lit '' hello '' @ [NL])),
      convert_from_bytes =
        (\<lambda>b. if b = [] then Inl (OtherException (lit ''no pages''))
              else Inr [example_page 1, example_page 2]),
      sharpness = (\<lambda>im. Inl (OtherException (lit ''boom''))),
      contrast = (\<lambda>im. Inr im),
      grayscale = (\<lambda>im. Inr (im\<lparr>img_mode := lit ''L''\<rparr>))\<rparr>"

section \<open>Results about the text utilities\<close>

subsection \<open>Splitting and trimming\<close>

lemma split_where_not_Nil: "split_where P s \<noteq> []"
  by (induction s) (auto split: list.splits)

lemma split_where_append:
  "P d \<Longrightarrow> split_where P (a @ d # b) = split_where P a @ split_where P b"
proof (induction a)
  case Nil
  then show ?case by simp
next
  case (Cons c a)
  obtain r rs where "split_where P a = r # rs"
    using split_where_not_Nil [of P a] by (cases "split_where P a") auto
  with Cons show ?case by simp
qed

lemma split_where_none: "\<forall>c \<in> set s. \<not> P c \<Longrightarrow> split_where P s = [s]"
  by (induction s) auto

lemma split_where_pieces: "r \<in> set (split_where P s) \<Longrightarrow> c \<in> set r \<Longrightarrow> \<not> P c"
proof (induction s arbitrary: r)
  case Nil
  then show ?case by simp
next
  case (Cons x s)
  show ?case
  proof (cases "P x")
    case True
    with Cons show ?thesis by auto
  next
    case False
    obtain q qs where q: "split_where P s = q # qs"
      using split_where_not_Nil [of P s] by (cases "split_where P s") auto
    with False Cons.prems have "r = x # q \<or> r \<in> set qs" by simp
    then show ?thesis
    proof
      assume "r = x # q"
      with Cons.prems(2) have "c = x \<or> c \<in> set q" by simp
      then show ?thesis using False Cons.IH [of q] q by auto
    next
      assume "r \<in> set qs"
      then show ?thesis using Cons.IH [of r] Cons.prems(2) q by simp
    qed
  qed
qed

lemma split_ws_append:
  "is_space d \<Longrightarrow> split_ws (a @ d # b) = split_ws a @ split_ws b"
  by (simp add: split_ws_def split_where_append)

lemma split_ws_snoc_space: "is_space d \<Longrightarrow> split_ws (a @ [d]) = split_ws a"
  by (simp add: split_ws_def split_where_append)

lemma split_ws_cons_space: "is_space d \<Longrightarrow> split_ws (d # a) = split_ws a"
  by (simp add: split_ws_def)

lemma split_ws_Nil: "split_ws [] = []"
  by (simp add: split_ws_def)

lemma split_ws_word: "w \<noteq> [] \<Longrightarrow> \<forall>c \<in> set w. \<not> is_space c \<Longrightarrow> split_ws w = [w]"
  by (simp add: split_ws_def split_where_none)

lemma split_ws_is_word: "w \<in> set (split_ws s) \<Longrightarrow> w \<noteq> [] \<and> (\<forall>c \<in> set w. \<not> is_space c)"
  using split_where_pieces [of w is_space s] by (auto simp: split_ws_def)

lemma split_ws_dropWhile: "split_ws (dropWhile is_space s) = split_ws s"
  by (induction s) (simp_all add: split_ws_cons_space)

lemma split_ws_spaces_end: "\<forall>c \<in> set t. is_space c \<Longrightarrow> split_ws (s @ t) = split_ws s"
proof (induction t rule: rev_induct)
  case Nil
  then show ?case by simp
next
  case (snoc x t)
  have "split_ws ((s @ t) @ [x]) = split_ws (s @ t)"
    using snoc.prems by (intro split_ws_snoc_space) simp
  with snoc show ?case by simp
qed

lemma strip_right_decomp:
  "\<exists>t. s = rev (dropWhile is_space (rev s)) @ t \<and> (\<forall>c \<in> set t. is_space c)"
proof -
  have "rev s = takeWhile is_space (rev s) @ dropWhile is_space (rev s)" by simp
  then have "s = rev (dropWhile is_space (rev s)) @ rev (takeWhile is_space (rev s))"
    by (metis rev_append rev_rev_ident)
  moreover have "\<forall>c \<in> set (rev (takeWhile is_space (rev s))). is_space c"
    by (auto dest: set_takeWhileD)
  ultimately show ?thesis by blast
qed

lemma split_ws_strip: "split_ws (strip s) = split_ws s"
proof -
  obtain t where t: "dropWhile is_space s = strip s @ t" "\<forall>c \<in> set t. is_space c"
    using strip_right_decomp [of "dropWhile is_space s"] by (auto simp: strip_def)
  have "split_ws s = split_ws (dropWhile is_space s)" by (simp add: split_ws_dropWhile)
  also have "\<dots> = split_ws (strip s)" using t by (simp add: split_ws_spaces_end)
  finally show ?thesis by simp
qed

lemma length_strip_le: "length (strip s) \<le> length s"
proof -
  have "length (strip s) \<le> length (dropWhile is_space s)"
    unfolding strip_def
    using length_dropWhile_le [of is_space "rev (dropWhile is_space s)"] by simp
  also have "\<dots> \<le> length s" by (rule length_dropWhile_le)
  finally show ?thesis .
qed

lemma strip_Nil: "strip [] = []"
  by (simp add: strip_def)

lemma strip_word_space:
  assumes "w \<noteq> []" "\<forall>c \<in> set w. \<not> is_space c" "is_space d"
  shows "strip (w @ [d]) = w"
proof -
  from assms obtain x xs where w: "w = x # xs" by (cases w) auto
  with assms have 1: "dropWhile is_space (w @ [d]) = w @ [d]" by simp
  from assms obtain y ys where r: "rev w = y # ys" by (cases "rev w") auto
  then have "y \<in> set w" by (metis list.set_intros(1) set_rev)
  with assms have "\<not> is_space y" by simp
  with r assms(3) have "dropWhile is_space (rev (w @ [d])) = rev w" by simp
  with 1 show ?thesis by (simp add: strip_def)
qed

lemma length_strip_snoc_space:
  assumes "is_space d"
  shows "length (strip (s @ [d])) \<le> length s"
proof (cases "\<forall>c \<in> set s. is_space c")
  case True
  with assms have "dropWhile is_space (s @ [d]) = []" by simp
  then show ?thesis by (simp add: strip_def)
next
  case False
  then have "dropWhile is_space (s @ [d]) = dropWhile is_space s @ [d]"
    by (auto simp: dropWhile_append1)
  with assms have "strip (s @ [d]) = strip s" by (simp add: strip_def)
  then show ?thesis by (simp add: length_strip_le)
qed

lemma strip_starts_word:
  assumes "s \<noteq> []" "\<not> is_space (hd s)"
  shows "strip s \<noteq> []"
proof -
  from assms have 1: "dropWhile is_space s = s" by (cases s) auto
  have "hd s \<in> set (rev s)" using assms(1) by simp
  with assms(2) have "dropWhile is_space (rev s) \<noteq> []"
    by (auto simp: dropWhile_eq_Nil_conv)
  with 1 show ?thesis by (simp add: strip_def)
qed

lemma split_ws_lines:
  assumes "\<And>c. Q c \<Longrightarrow> is_space c"
  shows "concat (map split_ws (split_where Q s)) = split_ws s"
proof (induction "length s" arbitrary: s rule: less_induct)
  case less
  show ?case
  proof (cases "\<exists>x \<in> set s. Q x")
    case False
    then show ?thesis by (simp add: split_where_none)
  next
    case True
    then obtain a q b where s: "s = a @ q # b" "Q q" "\<forall>y \<in> set a. \<not> Q y"
      using split_list_first_prop [of s Q] by blast
    have "concat (map split_ws (split_where Q b)) = split_ws b"
      using less [of b] s(1) by simp
    then show ?thesis
      using s assms by (simp add: split_where_append split_where_none split_ws_append)
  qed
qed

lemma split_ws_split_sep_NL: "concat (map split_ws (split_sep NL s)) = split_ws s"
  unfolding split_sep_def by (rule split_ws_lines) (simp add: is_space_def)

subsection \<open>The loops only add chunks\<close>

lemma pack_words_extends:
  "\<exists>ms. fst (pack_words L ws (messages, temp)) = messages @ ms"
proof (induction ws arbitrary: messages temp)
  case Nil
  then show ?case by simp
next
  case (Cons w ws)
  show ?case
  proof (cases "int (length temp) + int (length w) + 1 \<le> L")
    case True
    then show ?thesis using Cons [of messages "temp @ w @ [SP]"] by simp
  next
    case False
    obtain ms where "fst (pack_words L ws (messages @ [strip temp], w @ [SP])) = (messages @ [strip temp]) @ ms"
      using Cons [of "messages @ [strip temp]" "w @ [SP]"] by blast
    with False show ?thesis by simp
  qed
qed

lemma pack_lines_append:
  "pack_lines L (xs @ ys) st = pack_lines L ys (pack_lines L xs st)"
proof (induction xs arbitrary: st)
  case Nil
  then show ?case by (cases st) simp
next
  case (Cons x xs)
  obtain messages cur where st: "st = (messages, cur)" by (cases st)
  show ?case unfolding st by (simp add: Cons Let_def)
qed

lemma pack_lines_extends:
  "\<exists>ms. fst (pack_lines L ls (messages, cur)) = messages @ ms"
proof (induction ls arbitrary: messages cur)
  case Nil
  then show ?case by simp
next
  case (Cons l ls)
  define m1 where "m1 = (if cur \<noteq> [] then messages @ [strip cur] else messages)"
  have m1: "\<exists>ms. m1 = messages @ ms" by (simp add: m1_def)
  show ?case
  proof (cases "int (length cur) + int (length l) + 1 \<le> L")
    case True
    then show ?thesis using Cons [of messages "cur @ l @ [NL]"] by simp
  next
    case fit: False
    show ?thesis
    proof (cases "int (length l) > L")
      case True
      obtain m2 t2 where p: "pack_words L (split_ws l) (m1, []) = (m2, t2)"
        by (cases "pack_words L (split_ws l) (m1, [])")
      have "\<exists>ms. m2 = m1 @ ms" using pack_words_extends [of L "split_ws l" m1 "[]"] p by simp
      moreover have "\<exists>ms. fst (pack_lines L ls (m2, t2)) = m2 @ ms" by (rule Cons)
      ultimately have "\<exists>ms. fst (pack_lines L ls (m2, t2)) = messages @ ms"
        using m1 by auto
      with fit True p show ?thesis by (simp add: m1_def Let_def)
    next
      case False
      have "\<exists>ms. fst (pack_lines L ls (m1, l @ [NL])) = m1 @ ms" by (rule Cons)
      with m1 have "\<exists>ms. fst (pack_lines L ls (m1, l @ [NL])) = messages @ ms" by auto
      with fit False show ?thesis by (simp add: m1_def Let_def)
    qed
  qed
qed

subsection \<open>Chunk lengths\<close>

lemma pack_words_bound:
  assumes "pack_words L ws (messages, temp) = (ms', temp')"
    and "\<forall>c \<in> set messages. int (length c) \<le> L \<or> c \<in> W"
    and "int (length (strip temp)) \<le> L \<or> strip temp \<in> W"
    and "set ws \<subseteq> W"
    and "\<forall>w \<in> set ws. w \<noteq> [] \<and> (\<forall>c \<in> set w. \<not> is_space c)"
  shows "(\<forall>c \<in> set ms'. int (length c) \<le> L \<or> c \<in> W) \<and>
         (int (length (strip temp')) \<le> L \<or> strip temp' \<in> W)"
  using assms
proof (induction ws arbitrary: messages temp)
  case Nil
  then show ?case by simp
next
  case (Cons w ws)
  have w: "w \<noteq> []" "\<forall>c \<in> set w. \<not> is_space c" "w \<in> W" using Cons.prems by auto
  show ?case
  proof (cases "int (length temp) + int (length w) + 1 \<le> L")
    case True
    have "length (strip (temp @ w @ [SP])) \<le> length (temp @ w @ [SP])"
      by (rule length_strip_le)
    with True have "int (length (strip (temp @ w @ [SP]))) \<le> L" by simp
    moreover from True Cons.prems(1)
    have "pack_words L ws (messages, temp @ w @ [SP]) = (ms', temp')" by simp
    ultimately show ?thesis using Cons.IH Cons.prems by auto
  next
    case False
    have "strip (w @ [SP]) = w" using w by (intro strip_word_space) (simp_all add: is_space_def)
    with w have 1: "int (length (strip (w @ [SP]))) \<le> L \<or> strip (w @ [SP]) \<in> W" by simp
    from False Cons.prems(1)
    have 2: "pack_words L ws (messages @ [strip temp], w @ [SP]) = (ms', temp')" by simp
    have 3: "\<forall>c \<in> set (messages @ [strip temp]). int (length c) \<le> L \<or> c \<in> W"
      using Cons.prems(2,3) by auto
    show ?thesis using Cons.IH [OF 2 3 1] Cons.prems(4,5) by simp
  qed
qed

lemma pack_lines_bound:
  assumes "pack_lines L ls (messages, cur) = (ms', cur')"
    and "0 \<le> L"
    and "\<forall>c \<in> set messages. int (length c) \<le> L \<or> c \<in> W"
    and "int (length (strip cur)) \<le> L \<or> strip cur \<in> W"
    and "\<forall>l \<in> set ls. set (split_ws l) \<subseteq> W"
  shows "(\<forall>c \<in> set ms'. int (length c) \<le> L \<or> c \<in> W) \<and>
         (int (length (strip cur')) \<le> L \<or> strip cur' \<in> W)"
  using assms
proof (induction ls arbitrary: messages cur)
  case Nil
  then show ?case by simp
next
  case (Cons l ls)
  define m1 where "m1 = (if cur \<noteq> [] then messages @ [strip cur] else messages)"
  have m1: "\<forall>c \<in> set m1. int (length c) \<le> L \<or> c \<in> W"
    using Cons.prems(3,4) by (auto simp: m1_def)
  have rest: "\<forall>l \<in> set ls. set (split_ws l) \<subseteq> W" using Cons.prems(5) by simp
  show ?case
  proof (cases "int (length cur) + int (length l) + 1 \<le> L")
    case True
    have "length (strip (cur @ l @ [NL])) \<le> length (cur @ l @ [NL])"
      by (rule length_strip_le)
    with True have 1: "int (length (strip (cur @ l @ [NL]))) \<le> L \<or> strip (cur @ l @ [NL]) \<in> W"
      by simp
    from True Cons.prems(1) have 2: "pack_lines L ls (messages, cur @ l @ [NL]) = (ms', cur')"
      by simp
    show ?thesis using Cons.IH [OF 2 Cons.prems(2) Cons.prems(3) 1 rest] .
  next
    case fit: False
    show ?thesis
    proof (cases "int (length l) > L")
      case True
      obtain m2 t2 where p: "pack_words L (split_ws l) (m1, []) = (m2, t2)"
        by (cases "pack_words L (split_ws l) (m1, [])")
      have e: "int (length (strip [])) \<le> L \<or> strip [] \<in> W"
        using Cons.prems(2) by (simp add: strip_Nil)
      have sub: "set (split_ws l) \<subseteq> W" using Cons.prems(5) by simp
      have wd: "\<forall>w \<in> set (split_ws l). w \<noteq> [] \<and> (\<forall>c \<in> set w. \<not> is_space c)"
        using split_ws_is_word by blast
      have 1: "(\<forall>c \<in> set m2. int (length c) \<le> L \<or> c \<in> W) \<and>
               (int (length (strip t2)) \<le> L \<or> strip t2 \<in> W)"
        using pack_words_bound [OF p m1 e sub wd] .
      from fit True p Cons.prems(1) have 2: "pack_lines L ls (m2, t2) = (ms', cur')"
        by (simp add: m1_def Let_def)
      show ?thesis using Cons.IH [OF 2 Cons.prems(2) _ _ rest] 1 by blast
    next
      case False
      have "length (strip (l @ [NL])) \<le> length l"
        by (rule length_strip_snoc_space) (simp add: is_space_def)
      with False have 1: "int (length (strip (l @ [NL]))) \<le> L \<or> strip (l @ [NL]) \<in> W"
        by simp
      from fit False Cons.prems(1) have 2: "pack_lines L ls (m1, l @ [NL]) = (ms', cur')"
        by (simp add: m1_def Let_def)
      show ?thesis using Cons.IH [OF 2 Cons.prems(2) m1 1 rest] .
    qed
  qed
qed

lemma split_ws_line_subset:
  "l \<in> set (split_sep NL text) \<Longrightarrow> set (split_ws l) \<subseteq> set (split_ws text)"
proof -
  assume "l \<in> set (split_sep NL text)"
  then have "set (split_ws l) \<subseteq> set (concat (map split_ws (split_sep NL text)))" by auto
  then show ?thesis by (simp add: split_ws_split_sep_NL)
qed

text \<open>
  Claim C1, as amended. For every text and every maximum length that is not negative,
  every chunk returned by \<^verbatim>\<open>split_message\<close> has a length of at most the maximum,
  except a chunk that is one single word of the text (an element of \<^verbatim>\<open>text.split()\<close>) whose
  own length exceeds the maximum.
\<close>

theorem split_message_chunk_bound:
  assumes "0 \<le> max_length" and "c \<in> set (split_message text max_length)"
  shows "int (length c) \<le> max_length \<or>
         (c \<in> set (split_ws text) \<and> max_length < int (length c))"
proof -
  define W where "W = set (split_ws text)"
  obtain ms cur where p: "pack_lines max_length (split_sep NL text) ([], []) = (ms, cur)"
    by (cases "pack_lines max_length (split_sep NL text) ([], [])")
  have e: "int (length (strip [])) \<le> max_length \<or> strip [] \<in> W"
    using assms(1) by (simp add: strip_Nil)
  have sub: "\<forall>l \<in> set (split_sep NL text). set (split_ws l) \<subseteq> W"
    unfolding W_def using split_ws_line_subset by blast
  have inv: "(\<forall>c \<in> set ms. int (length c) \<le> max_length \<or> c \<in> W) \<and>
             (int (length (strip cur)) \<le> max_length \<or> strip cur \<in> W)"
    using pack_lines_bound [OF p assms(1) _ e sub] by simp
  have "c \<in> set ms \<or> c = strip cur \<or> c = []"
    using assms(2) p by (auto simp: split_message_def Let_def split: if_splits)
  then have "int (length c) \<le> max_length \<or> c \<in> W"
    using inv assms(1) by auto
  then show ?thesis unfolding W_def by linarith
qed

theorem split_message_chunk_bound_witness:
  "(0::int) \<le> 3 \<and>
   lit ''cdefg'' \<in> set (split_message (lit ''ab cdefg'') 3) \<and>
   lit ''ab'' \<in> set (split_message (lit ''ab cdefg'') 3) \<and>
   (int (length (lit ''cdefg'')) \<le> 3 \<or>
    (lit ''cdefg'' \<in> set (split_ws (lit ''ab cdefg'')) \<and> 3 < int (length (lit ''cdefg''))))"
proof -
  have run: "split_message (lit ''ab cdefg'') 3 = [lit ''ab'', lit ''cdefg'']"
    by (simp add: split_message_def split_sep_def split_ws_def is_space_def strip_def lit_def)
  have mem: "lit ''cdefg'' \<in> set (split_message (lit ''ab cdefg'') 3)"
    unfolding run by simp
  show ?thesis
    using split_message_chunk_bound [of 3 "lit ''cdefg''" "lit ''ab cdefg''"] mem run by simp
qed

text \<open>
  With a negative maximum length the claim as stated fails: \<^verbatim>\<open>split_message("a", -1)\<close>
  is \<^verbatim>\<open>["", "a"]\<close>, and the chunk \<^verbatim>\<open>""\<close> is longer than \<open>-1\<close> without being a word.
\<close>

theorem split_message_chunk_bound_counterexample:
  "split_message (lit ''a'') (- 1) = [[], lit ''a''] \<and>
   \<not> int (length ([] :: pystr)) \<le> - 1 \<and>
   [] \<notin> set (split_ws (lit ''a''))"
  by (simp add: split_message_def split_sep_def split_ws_def is_space_def strip_def lit_def)

subsection \<open>Tokens\<close>

lemma split_ws_append_ends:
  assumes "a = [] \<or> is_space (last a)"
  shows "split_ws (a @ b) = split_ws a @ split_ws b"
proof (cases "a = []")
  case True
  then show ?thesis by (simp add: split_ws_Nil)
next
  case False
  with assms have "a = butlast a @ [last a]" "is_space (last a)" by simp_all
  then obtain a' d where a: "a = a' @ [d]" "is_space d" by blast
  then show ?thesis by (simp add: split_ws_append split_ws_snoc_space split_ws_Nil)
qed

lemma split_ws_word_space:
  assumes "w \<noteq> []" "\<forall>c \<in> set w. \<not> is_space c" "is_space d"
  shows "split_ws (w @ [d]) = [w]"
  using assms by (simp add: split_ws_snoc_space split_ws_word)

lemma pack_words_tokens:
  assumes "pack_words L ws (messages, temp) = (ms', temp')"
    and "temp = [] \<or> is_space (last temp)"
    and "\<forall>w \<in> set ws. w \<noteq> [] \<and> (\<forall>c \<in> set w. \<not> is_space c)"
  shows "concat (map split_ws ms') @ split_ws temp' =
           concat (map split_ws messages) @ split_ws temp @ ws \<and>
         (temp' = [] \<or> is_space (last temp'))"
  using assms
proof (induction ws arbitrary: messages temp)
  case Nil
  then show ?case by simp
next
  case (Cons w ws)
  have w: "w \<noteq> []" "\<forall>c \<in> set w. \<not> is_space c" using Cons.prems(3) by auto
  have sp: "is_space SP" by (simp add: is_space_def)
  have ww: "split_ws (w @ [SP]) = [w]" using w sp by (rule split_ws_word_space)
  have rest: "\<forall>w \<in> set ws. w \<noteq> [] \<and> (\<forall>c \<in> set w. \<not> is_space c)"
    using Cons.prems(3) by simp
  show ?case
  proof (cases "int (length temp) + int (length w) + 1 \<le> L")
    case True
    with Cons.prems(1) have 1: "pack_words L ws (messages, temp @ w @ [SP]) = (ms', temp')"
      by simp
    have 2: "temp @ w @ [SP] = [] \<or> is_space (last (temp @ w @ [SP]))" using sp by simp
    have "split_ws (temp @ w @ [SP]) = split_ws temp @ [w]"
      using split_ws_append_ends [OF Cons.prems(2), of "w @ [SP]"] ww by simp
    then show ?thesis using Cons.IH [OF 1 2 rest] by simp
  next
    case False
    with Cons.prems(1)
    have 1: "pack_words L ws (messages @ [strip temp], w @ [SP]) = (ms', temp')" by simp
    have 2: "w @ [SP] = [] \<or> is_space (last (w @ [SP]))" using sp by simp
    show ?thesis using Cons.IH [OF 1 2 rest] ww by (simp add: split_ws_strip)
  qed
qed

lemma pack_lines_tokens:
  assumes "pack_lines L ls (messages, cur) = (ms', cur')"
    and "cur = [] \<or> is_space (last cur)"
  shows "concat (map split_ws ms') @ split_ws cur' =
           concat (map split_ws messages) @ split_ws cur @ concat (map split_ws ls) \<and>
         (cur' = [] \<or> is_space (last cur'))"
  using assms
proof (induction ls arbitrary: messages cur)
  case Nil
  then show ?case by simp
next
  case (Cons l ls)
  have nl: "is_space NL" by (simp add: is_space_def)
  define m1 where "m1 = (if cur \<noteq> [] then messages @ [strip cur] else messages)"
  have m1: "concat (map split_ws m1) = concat (map split_ws messages) @ split_ws cur"
    by (simp add: m1_def split_ws_strip split_ws_Nil)
  show ?case
  proof (cases "int (length cur) + int (length l) + 1 \<le> L")
    case True
    with Cons.prems(1) have 1: "pack_lines L ls (messages, cur @ l @ [NL]) = (ms', cur')"
      by simp
    have 2: "cur @ l @ [NL] = [] \<or> is_space (last (cur @ l @ [NL]))" using nl by simp
    have "split_ws (cur @ l @ [NL]) = split_ws cur @ split_ws l"
      using split_ws_append_ends [OF Cons.prems(2), of "l @ [NL]"] nl
      by (simp add: split_ws_snoc_space)
    then show ?thesis using Cons.IH [OF 1 2] by simp
  next
    case fit: False
    show ?thesis
    proof (cases "int (length l) > L")
      case True
      obtain m2 t2 where p: "pack_words L (split_ws l) (m1, []) = (m2, t2)"
        by (cases "pack_words L (split_ws l) (m1, [])")
      have wd: "\<forall>w \<in> set (split_ws l). w \<noteq> [] \<and> (\<forall>c \<in> set w. \<not> is_space c)"
        using split_ws_is_word by blast
      have 0: "concat (map split_ws m2) @ split_ws t2 =
               concat (map split_ws m1) @ split_ws [] @ split_ws l \<and>
               (t2 = [] \<or> is_space (last t2))"
        using pack_words_tokens [OF p _ wd] by simp
      from fit True p Cons.prems(1) have 1: "pack_lines L ls (m2, t2) = (ms', cur')"
        by (simp add: m1_def Let_def)
      have 2: "t2 = [] \<or> is_space (last t2)" using 0 by simp
      show ?thesis using Cons.IH [OF 1 2] 0 m1 by (simp add: split_ws_Nil)
    next
      case False
      from fit False Cons.prems(1) have 1: "pack_lines L ls (m1, l @ [NL]) = (ms', cur')"
        by (simp add: m1_def Let_def)
      have 2: "l @ [NL] = [] \<or> is_space (last (l @ [NL]))" using nl by simp
      have "split_ws (l @ [NL]) = split_ws l" using nl by (rule split_ws_snoc_space)
      then show ?thesis using Cons.IH [OF 1 2] m1 by simp
    qed
  qed
qed

lemma filter_concat_split_where:
  "concat (split_where P s) = filter (\<lambda>c. \<not> P c) s"
proof (induction s)
  case Nil
  then show ?case by simp
next
  case (Cons c s)
  obtain r rs where "split_where P s = r # rs"
    using split_where_not_Nil [of P s] by (cases "split_where P s") auto
  with Cons show ?case by auto
qed

lemma concat_split_ws: "concat (split_ws s) = filter (\<lambda>c. \<not> is_space c) s"
proof -
  have "concat (filter (\<lambda>w. w \<noteq> []) xs) = concat xs" for xs :: "pystr list"
    by (induction xs) auto
  then have "concat (split_ws s) = concat (split_where is_space s)"
    by (simp add: split_ws_def)
  then show ?thesis by (simp add: filter_concat_split_where)
qed

lemma split_message_words:
  "concat (map split_ws (split_message text max_length)) = split_ws text"
proof -
  obtain ms cur where p: "pack_lines max_length (split_sep NL text) ([], []) = (ms, cur)"
    by (cases "pack_lines max_length (split_sep NL text) ([], [])")
  have "concat (map split_ws ms) @ split_ws cur =
          concat (map split_ws []) @ split_ws [] @ concat (map split_ws (split_sep NL text))"
    using pack_lines_tokens [OF p] by simp
  then have inv: "concat (map split_ws ms) @ split_ws cur = split_ws text"
    by (simp add: split_ws_Nil split_ws_split_sep_NL)
  show ?thesis
  proof (cases "cur = []")
    case True
    with inv p show ?thesis by (cases "ms = []") (simp_all add: split_message_def split_ws_Nil)
  next
    case False
    with inv p show ?thesis by (simp add: split_message_def split_ws_strip)
  qed
qed

lemma split_ws_join:
  "is_space d \<Longrightarrow> split_ws (join [d] xs) = concat (map split_ws xs)"
proof (induction "[d]" xs rule: join.induct)
  case 1
  then show ?case by (simp add: split_ws_Nil)
next
  case (2 x)
  then show ?case by simp
next
  case (3 x y ys)
  then show ?case by (simp add: split_ws_append)
qed

text \<open>
  Claim C2. The words of the chunks (\<^verbatim>\<open>chunk.split()\<close> of each chunk, in order) are
  exactly the words of the text (\<^verbatim>\<open>text.split()\<close>); so are the words of the chunks
  joined by newlines; and the characters of the concatenated chunks that are not
  whitespace are those of the text, in the same order: only whitespace differs.
\<close>

theorem split_message_preserves_content:
  "concat (map split_ws (split_message text max_length)) = split_ws text \<and>
   split_ws (join [NL] (split_message text max_length)) = split_ws text \<and>
   filter (\<lambda>c. \<not> is_space c) (concat (split_message text max_length)) =
     filter (\<lambda>c. \<not> is_space c) text"
proof -
  have "filter (\<lambda>c. \<not> is_space c) (concat xs) = concat (concat (map split_ws xs))"
    for xs :: "pystr list"
    by (induction xs) (simp_all add: concat_split_ws)
  then have "filter (\<lambda>c. \<not> is_space c) (concat (split_message text max_length)) =
      concat (split_ws text)"
    by (simp add: split_message_words)
  moreover have "split_ws (join [NL] (split_message text max_length)) = split_ws text"
    by (simp add: split_ws_join is_space_def split_message_words)
  ultimately show ?thesis by (simp add: split_message_words concat_split_ws)
qed

theorem split_message_preserves_content_witness:
  "split_message (lit ''hello world'' @ [NL] @ lit ''foo'') 8 =
     [lit ''hello'', lit ''world'', lit ''foo''] \<and>
   concat (map split_ws [lit ''hello'', lit ''world'', lit ''foo'']) =
     split_ws (lit ''hello world'' @ [NL] @ lit ''foo'') \<and>
   split_ws (lit ''hello world'' @ [NL] @ lit ''foo'') =
     [lit ''hello'', lit ''world'', lit ''foo'']"
proof -
  have run: "split_message (lit ''hello world'' @ [NL] @ lit ''foo'') 8 =
      [lit ''hello'', lit ''world'', lit ''foo'']"
    by (simp add: split_message_def split_sep_def split_ws_def is_space_def strip_def lit_def)
  have ws: "split_ws (lit ''hello world'' @ [NL] @ lit ''foo'') =
      [lit ''hello'', lit ''world'', lit ''foo'']"
    by (simp add: split_ws_def is_space_def lit_def)
  show ?thesis
    using split_message_preserves_content [of "lit ''hello world'' @ [NL] @ lit ''foo''" 8] ws
    unfolding run by simp
qed

subsection \<open>Empty chunks\<close>

lemma pack_words_word_first:
  assumes "temp \<noteq> []" "\<not> is_space (hd temp)"
    and "\<forall>w \<in> set ws. w \<noteq> [] \<and> (\<forall>c \<in> set w. \<not> is_space c)"
  shows "\<exists>ms t. pack_words L ws (messages, temp) = (messages @ ms, t) \<and>
           [] \<notin> set ms \<and> t \<noteq> [] \<and> \<not> is_space (hd t)"
  using assms
proof (induction ws arbitrary: messages temp)
  case Nil
  then show ?case by simp
next
  case (Cons w ws)
  have w: "w \<noteq> []" "\<not> is_space (hd w)" using Cons.prems(3) by (cases w; simp)+
  have rest: "\<forall>w \<in> set ws. w \<noteq> [] \<and> (\<forall>c \<in> set w. \<not> is_space c)"
    using Cons.prems(3) by simp
  show ?case
  proof (cases "int (length temp) + int (length w) + 1 \<le> L")
    case True
    have "temp @ w @ [SP] \<noteq> []" "\<not> is_space (hd (temp @ w @ [SP]))"
      using Cons.prems(1,2) by simp_all
    from Cons.IH [OF this rest, of messages] True show ?thesis by simp
  next
    case False
    have "w @ [SP] \<noteq> []" "\<not> is_space (hd (w @ [SP]))" using w by simp_all
    from Cons.IH [OF this rest, of "messages @ [strip temp]"]
    obtain ms t where 1: "pack_words L ws (messages @ [strip temp], w @ [SP]) =
        ((messages @ [strip temp]) @ ms, t)" "[] \<notin> set ms" "t \<noteq> []" "\<not> is_space (hd t)"
      by blast
    have "strip temp \<noteq> []" using Cons.prems(1,2) by (rule strip_starts_word)
    with 1 False show ?thesis by simp
  qed
qed

lemma pack_lines_word_first:
  assumes "cur \<noteq> []" "\<not> is_space (hd cur)"
  shows "\<exists>ms t. pack_lines L ls (messages, cur) = (messages @ ms, t) \<and>
           (case ms of [] \<Rightarrow> t \<noteq> [] \<and> \<not> is_space (hd t) | c # _ \<Rightarrow> c \<noteq> [])"
  using assms
proof (induction ls arbitrary: messages cur)
  case Nil
  then show ?case by simp
next
  case (Cons l ls)
  have s: "strip cur \<noteq> []" using Cons.prems by (rule strip_starts_word)
  show ?case
  proof (cases "int (length cur) + int (length l) + 1 \<le> L")
    case True
    have "cur @ l @ [NL] \<noteq> []" "\<not> is_space (hd (cur @ l @ [NL]))"
      using Cons.prems by simp_all
    from Cons.IH [OF this, of messages] True show ?thesis by simp
  next
    case False
    define st where "st = (if int (length l) > L
        then pack_words L (split_ws l) (messages @ [strip cur], [])
        else (messages @ [strip cur], l @ [NL]))"
    have step: "pack_lines L (l # ls) (messages, cur) = pack_lines L ls st"
      using False Cons.prems(1) by (simp add: st_def Let_def)
    have "\<exists>ms. fst st = (messages @ [strip cur]) @ ms"
      using pack_words_extends [of L "split_ws l" "messages @ [strip cur]" "[]"]
      by (simp add: st_def)
    then obtain ms1 t1 where st: "st = ((messages @ [strip cur]) @ ms1, t1)"
      by (cases st) auto
    obtain ms2 where "fst (pack_lines L ls st) = ((messages @ [strip cur]) @ ms1) @ ms2"
      unfolding st using pack_lines_extends by blast
    then obtain t2 where "pack_lines L ls st = (messages @ strip cur # ms1 @ ms2, t2)"
      by (cases "pack_lines L ls st") auto
    with step s show ?thesis by simp
  qed
qed

text \<open>
  Claim C9, as amended. Whenever the word-packing branch is entered with an empty
  \<^verbatim>\<open>current_message\<close> (after the lines \<open>pre\<close>, which have emitted the chunks \<open>ms\<close>) and
  the first word of the over-long line has a length of at least the maximum, the
  returned list holds an empty string at that place, right after the chunks \<open>ms\<close> (so
  first when nothing was emitted before), and the chunk that follows it is not empty.
\<close>

theorem split_message_empty_chunk:
  assumes "split_sep NL text = pre @ line # post"
    and "pack_lines max_length pre ([], []) = (ms, [])"
    and "max_length < int (length line)"
    and "split_ws line = word # others"
    and "max_length \<le> int (length word)"
  shows "\<exists>c rest. split_message text max_length = ms @ [] # c # rest \<and> c \<noteq> []"
proof -
  have wd: "\<forall>w \<in> set (word # others). w \<noteq> [] \<and> (\<forall>c \<in> set w. \<not> is_space c)"
    using split_ws_is_word [of _ line] assms(4) by metis
  then have w: "word @ [SP] \<noteq> []" "\<not> is_space (hd (word @ [SP]))"
    by (cases word; simp)+
  have rest: "\<forall>w \<in> set others. w \<noteq> [] \<and> (\<forall>c \<in> set w. \<not> is_space c)" using wd by simp
  obtain ms1 t1 where 1: "pack_words max_length others (ms @ [[]], word @ [SP]) =
      ((ms @ [[]]) @ ms1, t1)" "[] \<notin> set ms1" "t1 \<noteq> []" "\<not> is_space (hd t1)"
    using pack_words_word_first [OF w rest, of max_length "ms @ [[]]"] by blast
  obtain ms2 t2 where 2: "pack_lines max_length post ((ms @ [[]]) @ ms1, t1) =
      (((ms @ [[]]) @ ms1) @ ms2, t2)"
      "case ms2 of [] \<Rightarrow> t2 \<noteq> [] \<and> \<not> is_space (hd t2) | c # _ \<Rightarrow> c \<noteq> []"
    using pack_lines_word_first [OF 1(3,4), of max_length post "(ms @ [[]]) @ ms1"] by blast
  have "pack_lines max_length (line # post) (ms, []) =
        pack_lines max_length post (pack_words max_length others (ms @ [[]], word @ [SP]))"
    using assms(3,4,5) by (simp add: strip_Nil)
  then have run: "pack_lines max_length (split_sep NL text) ([], []) = (ms @ [] # ms1 @ ms2, t2)"
    using assms(1,2) 1(1) 2(1) by (simp add: pack_lines_append)
  show ?thesis
  proof (cases ms1)
    case (Cons c cs)
    with 1(2) have "c \<noteq> []" by auto
    with run Cons show ?thesis by (simp add: split_message_def)
  next
    case Nil1: Nil
    show ?thesis
    proof (cases ms2)
      case (Cons c cs)
      with 2(2) have "c \<noteq> []" by simp
      with run Nil1 Cons show ?thesis by (simp add: split_message_def)
    next
      case Nil
      with 2(2) have "t2 \<noteq> []" "\<not> is_space (hd t2)" by simp_all
      then have "strip t2 \<noteq> []" by (rule strip_starts_word)
      with run Nil1 Nil \<open>t2 \<noteq> []\<close> show ?thesis by (simp add: split_message_def)
    qed
  qed
qed

theorem split_message_empty_chunk_witness:
  "split_sep NL (lit ''ab'') = [] @ lit ''ab'' # [] \<and>
   pack_lines 1 [] ([], []) = ([], []) \<and>
   1 < int (length (lit ''ab'')) \<and>
   split_ws (lit ''ab'') = lit ''ab'' # [] \<and>
   split_message (lit ''ab'') 1 = [[], lit ''ab''] \<and>
   (\<exists>c rest. split_message (lit ''ab'') 1 = [] @ [] # c # rest \<and> c \<noteq> [])"
proof -
  have h: "split_sep NL (lit ''ab'') = [] @ lit ''ab'' # []"
    "pack_lines 1 [] ([], []) = ([], [])"
    "1 < int (length (lit ''ab''))"
    "split_ws (lit ''ab'') = lit ''ab'' # []"
    "1 \<le> int (length (lit ''ab''))"
    by (simp_all add: split_sep_def split_ws_def is_space_def lit_def)
  have run: "split_message (lit ''ab'') 1 = [[], lit ''ab'']"
    by (simp add: split_message_def split_sep_def split_ws_def is_space_def strip_def lit_def)
  show ?thesis
    using split_message_empty_chunk [OF h] h run by blast
qed

text \<open>
  The claim as stated fails. With maximum length 1 and the text \<^verbatim>\<open>"ab\n   \ncd"\<close> the
  first line enters the word-packing branch with nothing accumulated and nothing
  emitted, its first word is longer than the maximum, and the result is
  \<^verbatim>\<open>["", "ab", "", "cd"]\<close>: the empty string is followed by another empty chunk. With
  maximum length 5 and the text \<^verbatim>\<open>"a\n      \nabcdef"\<close> the third line enters the branch
  with an empty \<^verbatim>\<open>current_message\<close>, and the result \<^verbatim>\<open>["a", "", "abcdef"]\<close> does not
  begin with the empty string.
\<close>

theorem split_message_empty_chunk_counterexample:
  "split_sep NL (lit ''ab'' @ [NL] @ lit ''   '' @ [NL] @ lit ''cd'') =
     [] @ lit ''ab'' # [lit ''   '', lit ''cd''] \<and>
   pack_lines 1 [] ([], []) = ([], []) \<and>
   1 < int (length (lit ''ab'')) \<and>
   split_ws (lit ''ab'') = [lit ''ab''] \<and>
   split_message (lit ''ab'' @ [NL] @ lit ''   '' @ [NL] @ lit ''cd'') 1 =
     [[], lit ''ab'', [], lit ''cd''] \<and>
   split_sep NL (lit ''a'' @ [NL] @ lit ''      '' @ [NL] @ lit ''abcdef'') =
     [lit ''a'', lit ''      ''] @ lit ''abcdef'' # [] \<and>
   pack_lines 5 [lit ''a'', lit ''      ''] ([], []) = ([lit ''a''], []) \<and>
   5 < int (length (lit ''abcdef'')) \<and>
   split_ws (lit ''abcdef'') = [lit ''abcdef''] \<and>
   split_message (lit ''a'' @ [NL] @ lit ''      '' @ [NL] @ lit ''abcdef'') 5 =
     [lit ''a'', [], lit ''abcdef'']"
  by (simp add: split_message_def split_sep_def split_ws_def is_space_def strip_def lit_def)

subsection \<open>Empty text\<close>

text \<open>
  Claim C5. \<^verbatim>\<open>split_message\<close> of the empty string is the list holding the empty
  string alone, whatever the maximum length; and for every text and maximum length the
  returned list is not empty.
\<close>

theorem split_message_empty:
  "split_message [] max_length = [[]] \<and> split_message text max_length \<noteq> []"
proof
  show "split_message [] max_length = [[]]"
    by (simp add: split_message_def split_sep_def split_ws_def strip_def is_space_def Let_def)
  show "split_message text max_length \<noteq> []"
    by (simp add: split_message_def Let_def split: prod.splits)
qed

theorem split_message_empty_witness:
  "split_message [] 4096 = [[]] \<and> split_message (lit ''ab cdefg'') 3 \<noteq> []"
  using split_message_empty [of 4096] split_message_empty [of 3 "lit ''ab cdefg''"]
  by simp

subsection \<open>Statistics\<close>

text \<open>
  Claim C10. \<^verbatim>\<open>get_text_statistics\<close> of the empty string is the record with
  \<open>lines = 1\<close>, \<open>words = 0\<close>, \<open>characters = 0\<close>; and for every string it returns a record
  whose line count is at least 1.
\<close>

theorem get_text_statistics_lines:
  "get_text_statistics [] = Some \<lparr>lines = 1, words = 0, characters = 0\<rparr> \<and>
   (\<exists>s. get_text_statistics text = Some s \<and> 1 \<le> lines s)"
proof -
  have "split_sep NL text \<noteq> []" by (simp add: split_sep_def split_where_not_Nil)
  then have "1 \<le> length (split_sep NL text)" by (cases "split_sep NL text") auto
  then show ?thesis by (simp add: get_text_statistics_def split_sep_def split_ws_def)
qed

theorem get_text_statistics_lines_witness:
  "get_text_statistics (lit ''a b'' @ [NL] @ lit ''c'') =
     Some \<lparr>lines = 2, words = 3, characters = 5\<rparr> \<and>
   (\<exists>s. get_text_statistics (lit ''a b'' @ [NL] @ lit ''c'') = Some s \<and> 1 \<le> lines s)"
proof -
  have "get_text_statistics (lit ''a b'' @ [NL] @ lit ''c'') =
      Some \<lparr>lines = 2, words = 3, characters = 5\<rparr>"
    by (simp add: get_text_statistics_def split_sep_def split_ws_def is_space_def lit_def)
  then show ?thesis
    using get_text_statistics_lines [of "lit ''a b'' @ [NL] @ lit ''c''"] by simp
qed

section \<open>Results about the extractors\<close>

subsection \<open>The remote extractor\<close>

text \<open>
  Claim C6. For every input that is neither a string nor bytes,
  \<^verbatim>\<open>extract_text_from_image_ocr_api\<close> returns the string
  \<^verbatim>\<open>"ERROR: Invalid image data type"\<close> and has no effect at all: no request is sent and
  nothing is logged.
\<close>

theorem ocr_api_invalid_type:
  assumes "\<And>p. image_data \<noteq> Path p" and "\<And>b. image_data \<noteq> Bytes b"
  shows "extract_text_from_image_ocr_api env image_data =
           (lit ''ERROR: Invalid image data type'', [])"
proof (cases image_data)
  case (Path p)
  with assms(1) show ?thesis by blast
next
  case (Bytes b)
  with assms(2) show ?thesis by blast
next
  case OtherValue
  then show ?thesis by simp
qed

theorem ocr_api_invalid_type_witness:
  "extract_text_from_image_ocr_api example_env OtherValue =
     (lit ''ERROR: Invalid image data type'', []) \<and>
   extract_text_from_image_ocr_api example_env (Bytes [2]) =
     (lit ''ERROR: OCR API request timed out'', [HttpPost [2]])"
proof -
  have "extract_text_from_image_ocr_api example_env (Bytes [2]) =
      (lit ''ERROR: OCR API request timed out'', [HttpPost [2]])"
    by (simp add: ocr_api_upload_def example_env_def)
  then show ?thesis
    using ocr_api_invalid_type [of OtherValue example_env] by simp
qed

subsection \<open>The local extractor\<close>

text \<open>
  Claim C8. When the image is decoded and converted and the OCR engine returns a text,
  then with a page number \<open>n\<close> the result is a line of 50 \<^verbatim>\<open>=\<close>, the line \<^verbatim>\<open>Page n\<close>,
  another line of 50 \<^verbatim>\<open>=\<close> and an empty line, followed by the trimmed text; with no
  page number the result is the trimmed text alone.
\<close>

theorem tesseract_page_banner:
  assumes "(case img of RawBytes b \<Rightarrow> image_open env (Bytes b) | Decoded im \<Rightarrow> Inr im) = Inr im"
    and "convert_rgb env im = Inr rgb"
    and "image_to_string env rgb = Inr raw"
  shows "extract_text_from_image_tesseract env img (Some n) =
           (replicate 50 EQS @ [NL] @ lit ''Page '' @ str_int n @ [NL] @
            replicate 50 EQS @ [NL] @ [NL] @ strip raw, []) \<and>
         extract_text_from_image_tesseract env img None = (strip raw, [])"
  using assms by (simp add: extract_text_from_image_tesseract_def tesseract_text_def)

theorem tesseract_page_banner_witness:
  "extract_text_from_image_tesseract example_env (Decoded (example_page 1)) (Some 3) =
     (replicate 50 EQS @ [NL] @ lit ''Page 3'' @ [NL] @ replicate 50 EQS @ [NL] @ [NL] @
      lit ''hello'', []) \<and>
   extract_text_from_image_tesseract example_env (Decoded (example_page 1)) None =
     (lit ''hello'', [])"
proof -
  have 1: "(case Decoded (example_page 1) of
              RawBytes b \<Rightarrow> image_open example_env (Bytes b) | Decoded im \<Rightarrow> Inr im) =
           Inr (example_page 1)"
    by simp
  have 2: "convert_rgb example_env (example_page 1) =
           Inr ((example_page 1)\<lparr>img_mode := lit ''RGB''\<rparr>)"
    by (simp add: example_env_def)
  have 3: "image_to_string example_env ((example_page 1)\<lparr>img_mode := lit ''RGB''\<rparr>) =
           Inr (lit '' hello '' @ [NL])"
    by (simp add: example_env_def example_page_def)
  have 4: "strip (lit '' hello '' @ [NL]) = lit ''hello''"
    by (simp add: strip_def is_space_def lit_def)
  have 5: "lit ''Page '' @ str_int 3 = lit ''Page 3''"
    by (simp add: str_int_def lit_def)
  show ?thesis
    using tesseract_page_banner [OF 1 2 3, of 3] 4 5 by simp
qed

subsection \<open>The PDF extractor\<close>

lemma join_contains: "x \<in> set xs \<Longrightarrow> \<exists>before after. join sep xs = before @ x @ after"
proof (induction sep xs rule: join.induct)
  case (1 sep)
  then show ?case by simp
next
  case (2 sep y)
  then have "join sep [y] = [] @ x @ []" by simp
  then show ?case by blast
next
  case (3 sep y z zs)
  show ?case
  proof (cases "x = y")
    case True
    then have "join sep (y # z # zs) = [] @ x @ (sep @ join sep (z # zs))" by simp
    then show ?thesis by blast
  next
    case False
    with 3 obtain a b where "join sep (z # zs) = a @ x @ b" by auto
    then have "join sep (y # z # zs) = (y @ sep @ a) @ x @ b" by simp
    then show ?thesis by blast
  qed
qed

lemma pdf_pages_keeps:
  "x \<in> set all_text \<Longrightarrow> x \<in> set (fst (pdf_pages env n i images (all_text, effs)))"
  by (induction images arbitrary: i all_text effs) (auto split: prod.splits)

lemma pdf_pages_page:
  "k < length images \<Longrightarrow>
   fst (extract_text_from_image_tesseract env (Decoded (images ! k)) (Some (i + int k)))
     \<in> set (fst (pdf_pages env n i images (all_text, effs)))"
proof (induction images arbitrary: i k all_text effs)
  case Nil
  then show ?case by simp
next
  case (Cons p images)
  obtain page_text page_effs where
    p: "extract_text_from_image_tesseract env (Decoded p) (Some i) = (page_text, page_effs)"
    by (cases "extract_text_from_image_tesseract env (Decoded p) (Some i)")
  show ?case
  proof (cases k)
    case 0
    then show ?thesis using p by (simp add: pdf_pages_keeps)
  next
    case (Suc j)
    with Cons.prems have "j < length images" by simp
    from Cons.IH [OF this, of "i + 1"] have
      "fst (extract_text_from_image_tesseract env (Decoded (images ! j)) (Some (i + 1 + int j)))
         \<in> set (fst (pdf_pages env n (i + 1) images (all_text', effs')))"
      for all_text' effs' .
    moreover have "i + 1 + int j = i + int k" using Suc by simp
    ultimately show ?thesis using p Suc by simp
  qed
qed

text \<open>
  Claim C3, as amended. When the rasterization (or reading the stream) fails,
  \<^verbatim>\<open>extract_text_from_pdf\<close> returns the single error string
  \<^verbatim>\<open>"ERROR: PDF processing failed: ..."\<close> for the whole document, and logs it. A failure
  in the extraction of one page does not reach the handler of the document: the page
  extractor catches it and returns \<^verbatim>\<open>"ERROR: Image processing failed: ..."\<close> as the
  text of that page. Once the rasterization has succeeded, the output begins with the
  \<^verbatim>\<open>Total Pages\<close> header and contains what the page extractor returned for every page,
  the pages that succeeded included.
\<close>

theorem extract_text_from_pdf_failures:
  "(pdf_images env pdf = Inl e \<longrightarrow>
      extract_text_from_pdf env pdf =
        (lit ''ERROR: PDF processing failed: '' @ exn_str e,
         [LogError (lit ''PDF OCR error: '' @ exn_str e)])) \<and>
   (pdf_images env pdf = Inr images \<and> k < length images \<longrightarrow>
      (\<exists>rest. fst (extract_text_from_pdf env pdf) =
         lit ''Total Pages: '' @ str_int (int (length images)) @ rest) \<and>
      (\<exists>before after. fst (extract_text_from_pdf env pdf) =
         before @
         fst (extract_text_from_image_tesseract env (Decoded (images ! k)) (Some (int k + 1))) @
         after)) \<and>
   (tesseract_text env img = Inl e' \<longrightarrow>
      fst (extract_text_from_image_tesseract env img page_number) =
        lit ''ERROR: Image processing failed: '' @ exn_str e')"
proof (intro conjI impI)
  assume "pdf_images env pdf = Inl e"
  then show "extract_text_from_pdf env pdf =
      (lit ''ERROR: PDF processing failed: '' @ exn_str e,
       [LogError (lit ''PDF OCR error: '' @ exn_str e)])"
    by (simp add: extract_text_from_pdf_def)
next
  assume a: "pdf_images env pdf = Inr images \<and> k < length images"
  obtain all_text effs where
    run: "pdf_pages env (int (length images)) 1 images ([], []) = (all_text, effs)"
    by (cases "pdf_pages env (int (length images)) 1 images ([], [])")
  have out: "fst (extract_text_from_pdf env pdf) =
      lit ''Total Pages: '' @ str_int (int (length images)) @ [NL] @ replicate 50 EQS @
      [NL, NL] @ join [NL] all_text"
    using a run by (simp add: extract_text_from_pdf_def)
  then show "\<exists>rest. fst (extract_text_from_pdf env pdf) =
      lit ''Total Pages: '' @ str_int (int (length images)) @ rest"
    by blast
  define page where
    "page = fst (extract_text_from_image_tesseract env (Decoded (images ! k)) (Some (int k + 1)))"
  have "fst (extract_text_from_image_tesseract env (Decoded (images ! k)) (Some (1 + int k)))
      \<in> set (fst (pdf_pages env (int (length images)) 1 images ([], [])))"
    using a by (intro pdf_pages_page) simp
  then have "page \<in> set all_text" using run by (simp add: page_def add.commute)
  then obtain a b where "join [NL] all_text = a @ page @ b"
    using join_contains by blast
  with out have "fst (extract_text_from_pdf env pdf) =
      (lit ''Total Pages: '' @ str_int (int (length images)) @ [NL] @ replicate 50 EQS @
       [NL, NL] @ a) @ page @ b"
    by simp
  then show "\<exists>before after. fst (extract_text_from_pdf env pdf) =
      before @
      fst (extract_text_from_image_tesseract env (Decoded (images ! k)) (Some (int k + 1))) @
      after"
    unfolding page_def by blast
next
  assume "tesseract_text env img = Inl e'"
  then show "fst (extract_text_from_image_tesseract env img page_number) =
      lit ''ERROR: Image processing failed: '' @ exn_str e'"
    by (simp add: extract_text_from_image_tesseract_def)
qed

theorem extract_text_from_pdf_failures_witness:
  "pdf_images example_env (PdfBytes []) = Inl (OtherException (lit ''no pages'')) \<and>
   extract_text_from_pdf example_env (PdfBytes []) =
     (lit ''ERROR: PDF processing failed: no pages'',
      [LogError (lit ''PDF OCR error: no pages'')]) \<and>
   pdf_images example_env (PdfBytes [7]) = Inr [example_page 1, example_page 2] \<and>
   (\<exists>before after. fst (extract_text_from_pdf example_env (PdfBytes [7])) =
      before @
      (replicate 50 EQS @ [NL] @ lit ''Page 1'' @ [NL] @ replicate 50 EQS @ [NL] @ [NL] @
       lit ''hello'') @
      after) \<and>
   tesseract_text example_env (Decoded (example_page 2)) = Inl (OtherException (lit ''boom'')) \<and>
   fst (extract_text_from_image_tesseract example_env (Decoded (example_page 2)) (Some 2)) =
     lit ''ERROR: Image processing failed: boom''"
proof -
  have 1: "pdf_images example_env (PdfBytes []) = Inl (OtherException (lit ''no pages''))"
    by (simp add: pdf_images_def example_env_def)
  have 2: "pdf_images example_env (PdfBytes [7]) = Inr [example_page 1, example_page 2]"
    by (simp add: pdf_images_def example_env_def)
  have 3: "strip (lit '' hello '' @ [NL]) = lit ''hello''"
    by (simp add: strip_def is_space_def lit_def)
  have 4: "lit ''Page '' @ str_int 1 = lit ''Page 1''"
    by (simp add: str_int_def lit_def)
  have 5: "fst (extract_text_from_image_tesseract example_env (Decoded (example_page 1)) (Some 1)) =
      replicate 50 EQS @ [NL] @ lit ''Page 1'' @ [NL] @ replicate 50 EQS @ [NL] @ [NL] @
      lit ''hello''"
    using 3 4
    by (simp add: extract_text_from_image_tesseract_def tesseract_text_def example_env_def
        example_page_def)
  have 6: "lit ''ERROR: PDF processing failed: '' @ lit ''no pages'' =
      lit ''ERROR: PDF processing failed: no pages''"
    "lit ''PDF OCR error: '' @ lit ''no pages'' = lit ''PDF OCR error: no pages''"
    "lit ''ERROR: Image processing failed: '' @ lit ''boom'' =
       lit ''ERROR: Image processing failed: boom''"
    by (simp_all add: lit_def)
  have 7: "tesseract_text example_env (Decoded (example_page 2)) =
      Inl (OtherException (lit ''boom''))"
    by (simp add: tesseract_text_def example_env_def example_page_def)
  show ?thesis
    using extract_text_from_pdf_failures
            [of example_env "PdfBytes []" "OtherException (lit ''no pages'')"]
          extract_text_from_pdf_failures
            [of example_env "PdfBytes [7]" _ "[example_page 1, example_page 2]" 0
                "Decoded (example_page 2)" "OtherException (lit ''boom'')" "Some 2"]
          1 2 5 6 7
    by simp
qed

text \<open>
  The claim as stated fails. In the example environment the document has two pages and
  the OCR engine raises on the second. The result is no error string for the document:
  it is the header, the banner and the text \<^verbatim>\<open>hello\<close> of page 1, the separator, and the
  error string of page 2 in the place of its text.
\<close>

theorem extract_text_from_pdf_failures_counterexample:
  "pdf_images example_env (PdfBytes [7]) = Inr [example_page 1, example_page 2] \<and>
   tesseract_text example_env (Decoded (example_page 1)) = Inr (lit ''hello'') \<and>
   tesseract_text example_env (Decoded (example_page 2)) = Inl (OtherException (lit ''boom'')) \<and>
   extract_text_from_pdf example_env (PdfBytes [7]) =
     (lit ''Total Pages: 2'' @ [NL] @ replicate 50 EQS @ [NL, NL] @
      replicate 50 EQS @ [NL] @ lit ''Page 1'' @ [NL] @ replicate 50 EQS @ [NL, NL] @
      lit ''hello'' @
      [NL] @ [NL, NL] @ replicate 50 EQS @ [NL, NL] @ [NL] @
      lit ''ERROR: Image processing failed: boom'',
      [LogError (lit ''Tesseract OCR error: boom'')])"
proof -
  have 1: "pdf_images example_env (PdfBytes [7]) = Inr [example_page 1, example_page 2]"
    by (simp add: pdf_images_def example_env_def)
  have s: "strip (lit '' hello '' @ [NL]) = lit ''hello''"
    by (simp add: strip_def is_space_def lit_def)
  have 2: "tesseract_text example_env (Decoded (example_page 1)) = Inr (lit ''hello'')"
    using s by (simp add: tesseract_text_def example_env_def example_page_def)
  have 3: "tesseract_text example_env (Decoded (example_page 2)) =
      Inl (OtherException (lit ''boom''))"
    by (simp add: tesseract_text_def example_env_def example_page_def)
  have 4: "lit ''Total Pages: '' @ str_int 2 = lit ''Total Pages: 2''"
    "lit ''Page '' @ str_int 1 = lit ''Page 1''"
    "lit ''ERROR: Image processing failed: '' @ lit ''boom'' =
       lit ''ERROR: Image processing failed: boom''"
    "lit ''Tesseract OCR error: '' @ lit ''boom'' = lit ''Tesseract OCR error: boom''"
    by (simp_all add: str_int_def lit_def)
  have 5: "lit ''Total Pages: '' @ str_int 2 @ rest = lit ''Total Pages: 2'' @ rest"
    "lit ''Page '' @ str_int 1 @ rest = lit ''Page 1'' @ rest"
    "lit ''ERROR: Image processing failed: '' @ lit ''boom'' @ rest =
       lit ''ERROR: Image processing failed: boom'' @ rest" for rest
    using 4 by (metis append_assoc)+
  have "extract_text_from_pdf example_env (PdfBytes [7]) =
     (lit ''Total Pages: 2'' @ [NL] @ replicate 50 EQS @ [NL, NL] @
      replicate 50 EQS @ [NL] @ lit ''Page 1'' @ [NL] @ replicate 50 EQS @ [NL, NL] @
      lit ''hello'' @
      [NL] @ [NL, NL] @ replicate 50 EQS @ [NL, NL] @ [NL] @
      lit ''ERROR: Image processing failed: boom'',
      [LogError (lit ''Tesseract OCR error: boom'')])"
    using 1 2 3 4 5
    by (simp add: extract_text_from_pdf_def extract_text_from_image_tesseract_def)
  with 1 2 3 show ?thesis by simp
qed

subsection \<open>The validator\<close>

text \<open>
  Claim C7. For every image that decodes: when its width exceeds the maximum width or
  its height exceeds the maximum height, \<^verbatim>\<open>validate_image\<close> returns
  \<^verbatim>\<open>(False, "Image size exceeds allowed limits")\<close>; when it is within both bounds and
  its format is one of JPEG, PNG, BMP and TIFF, \<^verbatim>\<open>validate_image\<close> returns
  \<^verbatim>\<open>(True, "OK")\<close>.
\<close>

theorem validate_image_size_and_format:
  assumes "image_open env image_data = Inr img"
  shows "(fst MAX_IMAGE_SIZE < fst (img_size img) \<or> snd MAX_IMAGE_SIZE < snd (img_size img) \<longrightarrow>
            validate_image env MAX_IMAGE_SIZE image_data =
              (False, lit ''Image size exceeds allowed limits'')) \<and>
         (fst (img_size img) \<le> fst MAX_IMAGE_SIZE \<and> snd (img_size img) \<le> snd MAX_IMAGE_SIZE \<and>
          img_format img \<in>
            {Some (lit ''JPEG''), Some (lit ''PNG''), Some (lit ''BMP''), Some (lit ''TIFF'')} \<longrightarrow>
            validate_image env MAX_IMAGE_SIZE image_data = (True, lit ''OK''))"
  using assms by (auto simp: validate_image_def)

theorem validate_image_size_and_format_witness:
  "image_open example_env (Bytes [1]) = Inr ((example_page 1)\<lparr>img_size := (5000, 600)\<rparr>) \<and>
   validate_image example_env (4096, 4096) (Bytes [1]) =
     (False, lit ''Image size exceeds allowed limits'') \<and>
   image_open example_env (Bytes [2]) = Inr (example_page 1) \<and>
   img_size (example_page 1) = (800, 600) \<and>
   img_format (example_page 1) = Some (lit ''PNG'') \<and>
   validate_image example_env (4096, 4096) (Bytes [2]) = (True, lit ''OK'')"
proof -
  have 1: "image_open example_env (Bytes [1]) =
      Inr ((example_page 1)\<lparr>img_size := (5000, 600)\<rparr>)"
    by (simp add: example_env_def)
  have 2: "image_open example_env (Bytes [2]) = Inr (example_page 1)"
    by (simp add: example_env_def)
  have 3: "img_size (example_page 1) = (800, 600)"
    "img_format (example_page 1) = Some (lit ''PNG'')"
    by (simp_all add: example_page_def)
  show ?thesis
    using validate_image_size_and_format [OF 1, of "(4096, 4096)"]
          validate_image_size_and_format [OF 2, of "(4096, 4096)"] 1 2 3
    by simp
qed

subsection \<open>The enhancer\<close>

text \<open>
  Claim C4 at a failing input. In the example environment the image of mode \<^verbatim>\<open>L\<close> is
  converted to RGB, then the sharpness filter raises. The handler logs the exception
  and returns the converted image, not the image that was passed in.
\<close>

theorem enhance_image_for_ocr_returns_intermediate:
  "img_mode (example_page 1) = lit ''L'' \<and>
   convert_rgb example_env (example_page 1) = Inr ((example_page 1)\<lparr>img_mode := lit ''RGB''\<rparr>) \<and>
   sharpness example_env ((example_page 1)\<lparr>img_mode := lit ''RGB''\<rparr>) =
     Inl (OtherException (lit ''boom'')) \<and>
   enhance_image_for_ocr example_env (example_page 1) =
     ((example_page 1)\<lparr>img_mode := lit ''RGB''\<rparr>,
      [LogError (lit ''Image enhancement error: boom'')]) \<and>
   (example_page 1)\<lparr>img_mode := lit ''RGB''\<rparr> \<noteq> example_page 1"
  by (simp add: enhance_image_for_ocr_def enhance_except_def example_env_def example_page_def
      lit_def)

end
